theory Spec2Isabelle
  imports Main
begin

section \<open>Strings and JSON values\<close>

text \<open>
  JavaScript strings are modelled as \<open>string\<close>. The three string methods used by the
  form are \<open>startsWith\<close>, \<open>endsWith\<close> and \<open>includes\<close>; all three compare
  characters exactly (they are case-sensitive). \<open>join\<close> is \<open>Array.prototype.join\<close>
  on an array of strings.
\<close>

fun startsWith :: "string \<Rightarrow> string \<Rightarrow> bool" where
  "startsWith s [] = True"
| "startsWith [] (p # ps) = False"
| "startsWith (c # cs) (p # ps) = (c = p \<and> startsWith cs ps)"

definition endsWith :: "string \<Rightarrow> string \<Rightarrow> bool" where
  "endsWith s p = startsWith (rev s) (rev p)"

fun includes_str :: "string \<Rightarrow> string \<Rightarrow> bool" where
  "includes_str [] p = startsWith [] p"
| "includes_str (c # cs) p = (startsWith (c # cs) p \<or> includes_str cs p)"

fun join :: "string list \<Rightarrow> string \<Rightarrow> string" where
  "join [] sep = []"
| "join [x] sep = x"
| "join (x # y # ys) sep = x @ sep @ join (y # ys) sep"

text \<open>
  A parsed JSON body. Numbers are restricted to integers (the claims only concern
  string-valued fields); an object is an association list read with \<open>map_of\<close>.
\<close>

datatype json = JNull | JBool bool | JNum int | JStr string
  | JArr "json list" | JObj "(string \<times> json) list"

text \<open>
  \<open>member k j\<close> is the property access \<open>j.k\<close> on a non-null value; \<open>None\<close> stands for
  \<open>undefined\<close>. Only objects carry the keys \<open>job_id\<close> and \<open>status\<close>. Access on
  \<open>null\<close> throws and is handled by the callers.
\<close>

fun member :: "string \<Rightarrow> json \<Rightarrow> json option" where
  "member k (JObj kvs) = map_of kvs k"
| "member k j = None"

fun truthy :: "json \<Rightarrow> bool" where
  "truthy JNull = False"
| "truthy (JBool b) = b"
| "truthy (JNum n) = (n \<noteq> 0)"
| "truthy (JStr s) = (s \<noteq> [])"
| "truthy (JArr xs) = True"
| "truthy (JObj kvs) = True"

fun digits :: "nat \<Rightarrow> string" where
  "digits n = (if n < 10 then [''0123456789'' ! n]
     else digits (n div 10) @ [''0123456789'' ! (n mod 10)])"

declare digits.simps [simp del]

text \<open>
  The conversion a template literal applies to an interpolated value. A string is
  inserted verbatim; the decimal rendering of a number agrees with JavaScript below
  \<open>10^21\<close> in magnitude.
\<close>

fun toString :: "json \<Rightarrow> string" where
  "toString JNull = ''null''"
| "toString (JBool b) = (if b then ''true'' else ''false'')"
| "toString (JNum n) = (if n < 0 then CHR ''-'' # digits (nat (- n)) else digits (nat n))"
| "toString (JStr s) = s"
| "toString (JArr xs) = join (map (\<lambda>x. if x = JNull then [] else toString x) xs) '',''"
| "toString (JObj kvs) = ''[object Object]''"

section \<open>The submission form (Form.jsx)\<close>

text \<open>
  The \<open>File\<close> object offers the two fields the form reads. \<open>formData\<close> is the
  component state of \<open>Form\<close>; the field \<open>file\<close> of the source is \<open>file'\<close> here, and
  \<open>null\<close> is \<open>None\<close>.
\<close>

record File =
  name :: string
  type :: string

record formData =
  projectName :: string
  category :: string
  techStack :: "string list"
  submissionType :: string
  repoUrl :: string
  file' :: "File option"

definition initialFormData :: formData where
  "initialFormData = \<lparr> projectName = [], category = ''default'', techStack = [],
     submissionType = ''zip'', repoUrl = [], file' = None \<rparr>"

text \<open>
  What a handler does besides updating state: alerts, network requests, console output
  and navigation, in the order they happen. The option \<open>method\<close> of \<open>fetch\<close> is the
  field \<open>method'\<close>.
\<close>

datatype part = Text string | Blob File

record request =
  url :: string
  method' :: string
  body :: "(string \<times> part) list"

datatype exn = TransportFailure | SyntaxError | TypeError | Error string

datatype effect = Alert string | Fetch request | ConsoleError exn | Navigate string

text \<open>
  What the environment answers to a \<open>fetch\<close>: the promise of \<open>fetch\<close> rejects, the
  promise of \<open>res.json()\<close> rejects, or a body is parsed.
\<close>

datatype response = NetworkError | InvalidJson | Parsed json

definition validateFile :: "File \<Rightarrow> formData \<Rightarrow> formData \<times> effect list" where
  "validateFile f prev =
     (if endsWith (name f) ''.zip'' \<or> includes_str (type f) ''zip''
         \<or> includes_str (type f) ''compressed''
      then (prev\<lparr>file' := Some f\<rparr>, [])
      else (prev, [Alert ''Please upload a .zip file'']))"

text \<open>
  The two places a file is offered: the drop zone (\<open>handleDrop\<close>, which also resets
  \<open>isDragging\<close>) and the hidden file input (\<open>onChange\<close>). Both look at the first file
  only and do nothing without one.
\<close>

fun handleDrop :: "File list \<Rightarrow> formData \<times> bool \<Rightarrow> (formData \<times> bool) \<times> effect list" where
  "handleDrop [] (prev, isDragging) = ((prev, False), [])"
| "handleDrop (f # fs) (prev, isDragging) =
     (case validateFile f prev of (fd, es) \<Rightarrow> ((fd, False), es))"

fun onChange :: "File list \<Rightarrow> formData \<Rightarrow> formData \<times> effect list" where
  "onChange [] prev = (prev, [])"
| "onChange (f # fs) prev = validateFile f prev"

definition toggleTech :: "string \<Rightarrow> formData \<Rightarrow> formData" where
  "toggleTech tech prev =
     prev\<lparr>techStack :=
       (if tech \<in> set (techStack prev)
        then filter (\<lambda>t. t \<noteq> tech) (techStack prev)
        else techStack prev @ [tech])\<rparr>"

text \<open>
  The body built by \<open>handleSubmit\<close> once validation has passed. Appending \<open>null\<close> to a
  \<open>FormData\<close> stores the string \<open>null\<close>; validation excludes that case.
\<close>

definition description :: "formData \<Rightarrow> string" where
  "description fd = projectName fd @ '' | Tech: '' @ join (techStack fd) '', ''"

definition buildRequest :: "formData \<Rightarrow> request" where
  "buildRequest fd =
     \<lparr> url = ''http://localhost:8000/submit'', method' = ''POST'',
       body = [(''project_type'', Text (category fd)),
               (''description'', Text (description fd))]
         @ (if submissionType fd = ''zip''
            then [(''single_zip'', (case file' fd of None \<Rightarrow> Text ''null'' | Some f \<Rightarrow> Blob f))]
            else [(''git_url'', Text (repoUrl fd))]) \<rparr>"

definition submissionFailed :: "exn \<Rightarrow> effect list" where
  "submissionFailed err = [ConsoleError err, Alert ''Submission failed.'']"

fun afterFetch :: "response \<Rightarrow> effect list" where
  "afterFetch NetworkError = submissionFailed TransportFailure"
| "afterFetch InvalidJson = submissionFailed SyntaxError"
| "afterFetch (Parsed JNull) = submissionFailed TypeError"
| "afterFetch (Parsed j) =
     (case member ''job_id'' j of
        None \<Rightarrow> submissionFailed (Error ''No job id returned'')
      | Some v \<Rightarrow>
          if truthy v then [Navigate (''/verify?job_id='' @ toString v)]
          else submissionFailed (Error ''No job id returned''))"

text \<open>
  \<open>handleSubmit\<close> never calls \<open>setFormData\<close>: the state it returns is the state it was
  given. The response is consulted only when the request has been sent.
\<close>

definition handleSubmit :: "response \<Rightarrow> formData \<Rightarrow> formData \<times> effect list" where
  "handleSubmit resp fd =
     (if category fd = ''default'' then (fd, [Alert ''Please select a project type.''])
      else if techStack fd = [] then (fd, [Alert ''Please select at least one technology.''])
      else if submissionType fd = ''zip'' \<and> file' fd = None
        then (fd, [Alert ''Please upload a zip file.''])
      else if submissionType fd \<noteq> ''zip''
          \<and> (repoUrl fd = [] \<or> \<not> startsWith (repoUrl fd) ''http'')
        then (fd, [Alert ''Please enter a valid Git repository URL.''])
      else (fd, Fetch (buildRequest fd) # afterFetch resp))"

text \<open>
  The validation rules as the specification lists them, for comparison with
  \<open>handleSubmit\<close>: the draft fails when the category is unset, no technology is chosen,
  archive mode has no file, or repository mode has a URL without the \<open>http\<close> prefix.
\<close>

definition fails_validation :: "formData \<Rightarrow> bool" where
  "fails_validation fd \<longleftrightarrow>
     category fd = ''default'' \<or> techStack fd = []
     \<or> (submissionType fd = ''zip'' \<and> file' fd = None)
     \<or> (submissionType fd \<noteq> ''zip'' \<and> \<not> startsWith (repoUrl fd) ''http'')"

definition first_failure :: "formData \<Rightarrow> string" where
  "first_failure fd =
     (if category fd = ''default'' then ''Please select a project type.''
      else if techStack fd = [] then ''Please select at least one technology.''
      else if submissionType fd = ''zip'' then ''Please upload a zip file.''
      else ''Please enter a valid Git repository URL.'')"

definition requests :: "effect list \<Rightarrow> request list" where
  "requests es = concat (map (\<lambda>e. case e of Fetch r \<Rightarrow> [r] | _ \<Rightarrow> []) es)"

definition navigations :: "effect list \<Rightarrow> string list" where
  "navigations es = concat (map (\<lambda>e. case e of Navigate h \<Rightarrow> [h] | _ \<Rightarrow> []) es)"

text \<open>
  The specification compares file names without regard to case; \<open>toLowerCase\<close> is
  the ASCII lower-casing used to state that reading.
\<close>

definition toLowerCase :: "string \<Rightarrow> string" where
  "toLowerCase s = map (\<lambda>c. let n = (of_char c :: nat) in
     if 65 \<le> n \<and> n \<le> 90 then char_of (n + 32) else c) s"

section \<open>The hand-off to the verify page\<close>

text \<open>
  \<open>handleSubmit\<close> assigns the address to \<open>window.location.href\<close> and \<open>Verify\<close> reads
  the identifier back with \<open>new URLSearchParams(useLocation().search).get("job_id")\<close>.
  Both are browser interfaces; they are written out here after the URL standard, for a
  page served over http. Strings are read as sequences of bytes.

  Parsing the address drops leading and trailing control characters and spaces, removes
  tabs and line breaks, takes the query from the first \<open>?\<close> up to the first \<open>#\<close>, and
  percent-encodes in it the control characters, the space, the bytes above \<open>~\<close> and the
  five characters with codes 34, 35, 39, 60 and 62. \<open>location_search\<close> is the result
  with its leading \<open>?\<close>.
\<close>

definition c0_or_space :: "char \<Rightarrow> bool" where
  "c0_or_space c \<longleftrightarrow> (of_char c :: nat) \<le> 32"

definition tab_or_newline :: "char \<Rightarrow> bool" where
  "tab_or_newline c \<longleftrightarrow> (of_char c :: nat) \<in> {9, 10, 13}"

definition url_input :: "string \<Rightarrow> string" where
  "url_input s = filter (\<lambda>c. \<not> tab_or_newline c)
     (rev (dropWhile c0_or_space (rev (dropWhile c0_or_space s))))"

definition url_query :: "string \<Rightarrow> string" where
  "url_query s = drop 1 (dropWhile (\<lambda>c. c \<noteq> CHR ''?'') (takeWhile (\<lambda>c. c \<noteq> CHR ''#'') s))"

definition hexdigit :: "nat \<Rightarrow> char" where
  "hexdigit d = ''0123456789ABCDEF'' ! d"

definition hexval :: "char \<Rightarrow> nat option" where
  "hexval c = map_of
     [(CHR ''0'', 0), (CHR ''1'', 1), (CHR ''2'', 2), (CHR ''3'', 3), (CHR ''4'', 4),
      (CHR ''5'', 5), (CHR ''6'', 6), (CHR ''7'', 7), (CHR ''8'', 8), (CHR ''9'', 9),
      (CHR ''A'', 10), (CHR ''B'', 11), (CHR ''C'', 12), (CHR ''D'', 13), (CHR ''E'', 14),
      (CHR ''F'', 15), (CHR ''a'', 10), (CHR ''b'', 11), (CHR ''c'', 12), (CHR ''d'', 13),
      (CHR ''e'', 14), (CHR ''f'', 15)] c"

definition in_query_encode_set :: "char \<Rightarrow> bool" where
  "in_query_encode_set c \<longleftrightarrow>
     (of_char c :: nat) \<le> 32 \<or> 126 < (of_char c :: nat)
     \<or> (of_char c :: nat) \<in> {34, 35, 39, 60, 62}"

definition percent_encode :: "char \<Rightarrow> string" where
  "percent_encode c =
     (if in_query_encode_set c
      then [CHR ''%'', hexdigit ((of_char c :: nat) div 16), hexdigit ((of_char c :: nat) mod 16)]
      else [c])"

definition location_search :: "string \<Rightarrow> string" where
  "location_search href =
     (let q = concat (map percent_encode (url_query (url_input href)))
      in if q = [] then [] else CHR ''?'' # q)"

text \<open>
  \<open>URLSearchParams\<close> strips the leading \<open>?\<close>, splits at \<open>&\<close>, skips empty pieces,
  splits each piece at its first \<open>=\<close>, turns \<open>+\<close> into a space and decodes percent
  escapes (a \<open>%\<close> followed by two hex digits); \<open>get\<close> returns the value of the first
  pair with the name asked for.
\<close>

fun percent_decode :: "string \<Rightarrow> string" where
  "percent_decode [] = []"
| "percent_decode (c # cs) =
     (if c = CHR ''%'' then
        (case cs of
           a # b # rest \<Rightarrow>
             (case (hexval a, hexval b) of
                (Some x, Some y) \<Rightarrow> char_of (16 * x + y) # percent_decode rest
              | _ \<Rightarrow> c # percent_decode cs)
         | _ \<Rightarrow> c # percent_decode cs)
      else c # percent_decode cs)"

fun split_on :: "char \<Rightarrow> string \<Rightarrow> string list" where
  "split_on d [] = [[]]"
| "split_on d (c # cs) =
     (if c = d then [] # split_on d cs
      else (case split_on d cs of [] \<Rightarrow> [[c]] | x # xs \<Rightarrow> (c # x) # xs))"

definition form_decode :: "string \<Rightarrow> string" where
  "form_decode s = percent_decode (map (\<lambda>c. if c = CHR ''+'' then CHR '' '' else c) s)"

definition parse_pair :: "string \<Rightarrow> string \<times> string" where
  "parse_pair seq =
     (form_decode (takeWhile (\<lambda>c. c \<noteq> CHR ''='') seq),
      form_decode (drop 1 (dropWhile (\<lambda>c. c \<noteq> CHR ''='') seq)))"

definition URLSearchParams :: "string \<Rightarrow> (string \<times> string) list" where
  "URLSearchParams init =
     map parse_pair (filter (\<lambda>s. s \<noteq> [])
       (split_on CHR ''&'' (if startsWith init ''?'' then drop 1 init else init)))"

definition query_get :: "(string \<times> string) list \<Rightarrow> string \<Rightarrow> string option" where
  "query_get query k = map_of query k"

definition useLocation_jobId :: "string \<Rightarrow> string option" where
  "useLocation_jobId href = query_get (URLSearchParams (location_search href)) ''job_id''"

text \<open>
  The identifiers that come through unchanged: none of \<open>&\<close>, \<open>#\<close>, \<open>+\<close>, no tab or
  line break, no percent escape, and no control character or space at the end.
\<close>

fun has_escape :: "string \<Rightarrow> bool" where
  "has_escape (c # a # b # r) =
     ((c = CHR ''%'' \<and> hexval a \<noteq> None \<and> hexval b \<noteq> None) \<or> has_escape (a # b # r))"
| "has_escape s = False"

definition survives_query :: "string \<Rightarrow> bool" where
  "survives_query s \<longleftrightarrow>
     (\<forall>c\<in>set s. c \<noteq> CHR ''&'' \<and> c \<noteq> CHR ''#'' \<and> c \<noteq> CHR ''+''
        \<and> \<not> tab_or_newline c)
     \<and> \<not> has_escape s
     \<and> (s \<noteq> [] \<longrightarrow> \<not> c0_or_space (last s))"

section \<open>The result poller (Verify)\<close>

text \<open>
  \<open>Verify\<close> keeps \<open>result\<close> (initially \<open>null\<close>) and, from its mount effect, an
  interval timer of period 3000 ms whose callback fetches the job status and, on a
  status other than \<open>processing\<close>, stores the body and clears the timer.

  Time is counted in milliseconds since the mount. \<open>timer\<close> is \<open>Some t\<close> while the
  interval is armed and fires next at \<open>t\<close>, and \<open>None\<close> once \<open>clearInterval\<close> has run.
  \<open>pending\<close> lists the requests in flight as (time the outcome arrives, request number);
  \<open>issued\<close> logs every request with the time it was sent. The environment is
  \<open>server\<close>: for the \<open>k\<close>-th request, how long its outcome takes and what it is.
\<close>

record Verify =
  result :: "json option"
  timer :: "nat option"
  pending :: "(nat \<times> nat) list"
  issued :: "(nat \<times> request) list"

datatype view = Processing | Pre json

definition mount :: Verify where
  "mount = \<lparr> result = None, timer = Some 3000, pending = [], issued = [] \<rparr>"

text \<open>\<open>jobId\<close> is \<open>query.get("job_id")\<close>, which is \<open>null\<close> when the parameter is absent.\<close>

definition statusRequest :: "string option \<Rightarrow> request" where
  "statusRequest jobId =
     \<lparr> url = ''http://localhost:8000/result/''
         @ (case jobId of None \<Rightarrow> ''null'' | Some i \<Rightarrow> i),
       method' = ''GET'', body = [] \<rparr>"

text \<open>
  The timer fires at \<open>t\<close>: the callback starts, sends the next request and suspends;
  the interval stays armed for \<open>t + 3000\<close>.
\<close>

definition tick :: "string option \<Rightarrow> (nat \<Rightarrow> nat \<times> response) \<Rightarrow> nat \<Rightarrow> Verify \<Rightarrow> Verify" where
  "tick jobId server t s =
     s\<lparr> issued := issued s @ [(t, statusRequest jobId)],
        pending := pending s @ [(t + fst (server (length (issued s))), length (issued s))],
        timer := Some (t + 3000) \<rparr>"

text \<open>
  The rest of the callback, once the outcome is known. A rejected \<open>fetch\<close>, a body that
  does not parse and the body \<open>null\<close> (whose \<open>status\<close> access throws) end the callback
  with nothing done.
\<close>

fun onResponse :: "response \<Rightarrow> Verify \<Rightarrow> Verify" where
  "onResponse NetworkError s = s"
| "onResponse InvalidJson s = s"
| "onResponse (Parsed JNull) s = s"
| "onResponse (Parsed j) s =
     (if member ''status'' j \<noteq> Some (JStr ''processing'')
      then s\<lparr> result := Some j, timer := None \<rparr> else s)"

definition settle :: "(nat \<Rightarrow> nat \<times> response) \<Rightarrow> nat \<Rightarrow> Verify \<Rightarrow> Verify" where
  "settle server k s =
     onResponse (snd (server k)) (s\<lparr> pending := filter (\<lambda>p. snd p \<noteq> k) (pending s) \<rparr>)"

text \<open>
  The event loop runs one callback at a time, in order of time: the outcome that
  arrives first among those in flight, or the timer. When an outcome arrives at the very
  instant the timer fires, \<open>arrival_first\<close> says which of the two runs first.
\<close>

fun earliest :: "(nat \<times> nat) list \<Rightarrow> (nat \<times> nat) option" where
  "earliest [] = None"
| "earliest (p # ps) =
     (case earliest ps of None \<Rightarrow> Some p
      | Some q \<Rightarrow> if fst q < fst p then Some q else Some p)"

definition step :: "bool \<Rightarrow> string option \<Rightarrow> (nat \<Rightarrow> nat \<times> response) \<Rightarrow> Verify \<Rightarrow> Verify" where
  "step arrival_first jobId server s =
     (case earliest (pending s) of
        None \<Rightarrow> (case timer s of None \<Rightarrow> s | Some t \<Rightarrow> tick jobId server t s)
      | Some (a, k) \<Rightarrow>
          (case timer s of
             None \<Rightarrow> settle server k s
           | Some t \<Rightarrow>
               if a < t \<or> (a = t \<and> arrival_first) then settle server k s
               else tick jobId server t s))"

text \<open>\<open>run n f s\<close> is the state after the next \<open>n\<close> events.\<close>

primrec run :: "nat \<Rightarrow> (Verify \<Rightarrow> Verify) \<Rightarrow> Verify \<Rightarrow> Verify" where
  "run 0 f s = s"
| "run (Suc n) f s = run n f (f s)"

text \<open>What the component shows: \<open>Processing...\<close> while \<open>result\<close> is falsy.\<close>

definition render :: "Verify \<Rightarrow> view" where
  "render s = (case result s of None \<Rightarrow> Processing
     | Some j \<Rightarrow> if truthy j then Pre j else Processing)"

text \<open>
  The states the poller can reach when the first two requests are answered
  \<open>processing\<close> and the third is answered \<open>final\<close> before the timer fires a fourth
  time: at most the three requests of 3000, 6000 and 9000 ms are sent, the requests in
  flight are among them, and the poller is terminal exactly when the third answer has
  been delivered. \<open>events\<close> counts the timer firings and deliveries so far.
\<close>

definition scenario_inv :: "string option \<Rightarrow> (nat \<Rightarrow> nat \<times> response) \<Rightarrow> json \<Rightarrow> Verify \<Rightarrow> bool" where
  "scenario_inv jobId server final s \<longleftrightarrow>
     length (issued s) \<le> 3
     \<and> issued s = take (length (issued s))
           [(3000, statusRequest jobId), (6000, statusRequest jobId), (9000, statusRequest jobId)]
     \<and> distinct (map snd (pending s))
     \<and> length (pending s) \<le> length (issued s)
     \<and> (\<forall>p\<in>set (pending s). snd p < length (issued s)
            \<and> fst p = 3000 * (snd p + 1) + fst (server (snd p)))
     \<and> (if length (issued s) = 3 \<and> 2 \<notin> snd ` set (pending s)
         then timer s = None \<and> result s = Some final
         else timer s = Some (3000 * (length (issued s) + 1)) \<and> result s = None)"

definition events :: "Verify \<Rightarrow> nat" where
  "events s = 2 * length (issued s) - length (pending s)"

section \<open>Example drafts and servers\<close>

text \<open>
  Concrete inputs on which the results below are evaluated: two drafts that pass
  validation, one whose URL starts with \<open>http\<close> but has no scheme separator, and servers
  that answer the poller quickly, slowly, or out of order.
\<close>

definition repoDraft :: formData where
  "repoDraft = \<lparr> projectName = ''demo'', category = ''backend'', techStack = [''Go''],
     submissionType = ''repo'', repoUrl = ''https://example.org/r.git'', file' = None \<rparr>"

definition zipDraft :: formData where
  "zipDraft = \<lparr> projectName = [], category = ''python'', techStack = [''Flask'', ''Docker''],
     submissionType = ''zip'', repoUrl = [],
     file' = Some \<lparr> name = ''a.zip'', type = ''application/zip'' \<rparr> \<rparr>"

definition looseUrlDraft :: formData where
  "looseUrlDraft = \<lparr> projectName = ''demo'', category = ''frontend'', techStack = [''React''],
     submissionType = ''repo'', repoUrl = ''httpfoo'', file' = None \<rparr>"

definition stackDraft :: formData where
  "stackDraft = \<lparr> projectName = [], category = ''fullstack'',
     techStack = [''React'', ''Node.js'', ''PostgreSQL''],
     submissionType = ''repo'', repoUrl = ''http://example.org/app.git'', file' = None \<rparr>"

definition lateFirstServer :: "nat \<Rightarrow> nat \<times> response" where
  "lateFirstServer k =
     (if k = 0 then (4000, Parsed (JObj [(''status'', JStr ''processing'')]))
      else if k = 1 then (100, Parsed (JObj [(''status'', JStr ''processing'')]))
      else (2999, Parsed (JObj [(''status'', JStr ''completed''), (''score'', JNum 42)])))"

definition slowThirdServer :: "nat \<Rightarrow> nat \<times> response" where
  "slowThirdServer k =
     (if k = 0 then (100, Parsed (JObj [(''status'', JStr ''processing'')]))
      else if k = 1 then (100, Parsed (JObj [(''status'', JStr ''processing'')]))
      else if k = 2
        then (4000, Parsed (JObj [(''status'', JStr ''completed''), (''score'', JNum 42)]))
      else (100, NetworkError))"

definition overtakingServer :: "nat \<Rightarrow> nat \<times> response" where
  "overtakingServer k =
     (if k = 0
      then (5000, Parsed (JObj [(''status'', JStr ''completed''), (''score'', JNum 42)]))
      else (1000, Parsed (JObj [(''status'', JStr ''failed'')])))"

definition busyServer :: "nat \<Rightarrow> nat \<times> response" where
  "busyServer k = (4000, Parsed (JObj [(''status'', JStr ''processing'')]))"

definition quickServer :: "nat \<Rightarrow> nat \<times> response" where
  "quickServer k = (100, Parsed (JObj [(''status'', JStr ''processing'')]))"

definition cancellingServer :: "nat \<Rightarrow> nat \<times> response" where
  "cancellingServer k = (100, Parsed (JObj [(''status'', JStr ''cancelled'')]))"

section \<open>Facts about the string functions\<close>

lemma startsWith_iff: "startsWith s p \<longleftrightarrow> (\<exists>r. s = p @ r)"
  by (induction s p rule: startsWith.induct) auto

lemma endsWith_iff: "endsWith s p \<longleftrightarrow> (\<exists>r. s = r @ p)"
proof -
  have "endsWith s p \<longleftrightarrow> (\<exists>r. rev s = rev p @ r)"
    by (simp add: endsWith_def startsWith_iff)
  also have "\<dots> \<longleftrightarrow> (\<exists>r. s = r @ p)"
  proof
    assume "\<exists>r. rev s = rev p @ r"
    then obtain r where "rev s = rev p @ r" ..
    then have "rev (rev s) = rev (rev p @ r)" by simp
    then have "s = rev r @ p" by simp
    then show "\<exists>r. s = r @ p" ..
  next
    assume "\<exists>r. s = r @ p"
    then obtain r where "s = r @ p" ..
    then have "rev s = rev p @ rev r" by simp
    then show "\<exists>r. rev s = rev p @ r" ..
  qed
  finally show ?thesis .
qed

lemma includes_str_iff: "includes_str s p \<longleftrightarrow> (\<exists>l r. s = l @ p @ r)"
proof (induction s)
  case Nil
  show ?case by (auto simp: startsWith_iff)
next
  case (Cons c cs)
  show ?case
  proof
    assume "includes_str (c # cs) p"
    then consider "startsWith (c # cs) p" | "includes_str cs p" by auto
    then show "\<exists>l r. c # cs = l @ p @ r"
    proof cases
      case 1
      then obtain r where "c # cs = p @ r" by (auto simp: startsWith_iff)
      then have "c # cs = [] @ p @ r" by simp
      then show ?thesis by blast
    next
      case 2
      then obtain l r where "cs = l @ p @ r" using Cons.IH by blast
      then have "c # cs = (c # l) @ p @ r" by simp
      then show ?thesis by blast
    qed
  next
    assume "\<exists>l r. c # cs = l @ p @ r"
    then obtain l r where eq: "c # cs = l @ p @ r" by blast
    show "includes_str (c # cs) p"
    proof (cases l)
      case Nil
      with eq have "startsWith (c # cs) p" by (auto simp: startsWith_iff)
      then show ?thesis by simp
    next
      case (Cons a l')
      with eq have "cs = l' @ p @ r" by simp
      then have "includes_str cs p" using Cons.IH by blast
      then show ?thesis by simp
    qed
  qed
qed

lemma join_concat:
  "join xs sep = (case xs of [] \<Rightarrow> [] | x # ys \<Rightarrow> x @ concat (map (\<lambda>y. sep @ y) ys))"
  by (induction xs sep rule: join.induct) simp_all

section \<open>Facts about the hand-off\<close>

lemma hexval_hexdigit_all: "list_all (\<lambda>d. hexval (hexdigit d) = Some d) [0..<16]"
  by code_simp

lemma hexval_hexdigit: "d < 16 \<Longrightarrow> hexval (hexdigit d) = Some d"
  using hexval_hexdigit_all by (simp add: list_all_iff)

lemma hexdigit_plain: "d < 16 \<Longrightarrow> hexdigit d \<in> set ''0123456789ABCDEF''"
  by (simp add: hexdigit_def del: set_simps)

lemma percent_decode_encode: "percent_decode (percent_encode c @ cs) = c # percent_decode cs"
  if "c \<noteq> CHR ''%''"
proof (cases "in_query_encode_set c")
  case True
  let ?n = "of_char c :: nat"
  have "?n < 256" by simp
  then have hi: "?n div 16 < 16" by (simp add: less_mult_imp_div_less)
  have lo: "?n mod 16 < 16" by simp
  have "char_of (16 * (?n div 16) + ?n mod 16) = c" by simp
  then show ?thesis
    using True by (simp add: percent_encode_def hexval_hexdigit [OF hi] hexval_hexdigit [OF lo])
next
  case False
  with that show ?thesis by (simp add: percent_encode_def)
qed

lemma percent_encode_chars:
  "x \<in> set (percent_encode c) \<Longrightarrow> x = c \<or> x \<in> set ''%0123456789ABCDEF''"
proof (cases "in_query_encode_set c")
  case True
  let ?n = "of_char c :: nat"
  assume x: "x \<in> set (percent_encode c)"
  have "?n < 256" by simp
  then have hi: "?n div 16 < 16" by (simp add: less_mult_imp_div_less)
  have lo: "?n mod 16 < 16" by simp
  from x True have "x = CHR ''%'' \<or> x = hexdigit (?n div 16) \<or> x = hexdigit (?n mod 16)"
    by (auto simp: percent_encode_def)
  with hexdigit_plain [OF hi] hexdigit_plain [OF lo] show ?thesis by auto
next
  case False
  assume "x \<in> set (percent_encode c)"
  with False show ?thesis by (simp add: percent_encode_def)
qed

lemma encoded_avoids:
  assumes "d \<notin> set s" and "d \<notin> set ''%0123456789ABCDEF''"
  shows "d \<notin> set (concat (map percent_encode s))"
proof
  assume "d \<in> set (concat (map percent_encode s))"
  then obtain c where "c \<in> set s" "d \<in> set (percent_encode c)" by auto
  with percent_encode_chars [of d c] assms show False by auto
qed

lemma split_on_absent: "d \<notin> set s \<Longrightarrow> split_on d s = [s]"
  by (induction s) auto



lemma hexval_percent: "hexval CHR ''%'' = None"
  by (simp add: hexval_def)

lemma hexval_not_encoded: "hexval a \<noteq> None \<Longrightarrow> percent_encode a = [a]"
  by (auto simp: hexval_def percent_encode_def in_query_encode_set_def split: if_splits)

lemma percent_encode_percent: "percent_encode CHR ''%'' = ''%''"
  by (simp add: percent_encode_def in_query_encode_set_def)

lemma percent_encode_head:
  "percent_encode a = [a] \<or> (\<exists>x y. percent_encode a = [CHR ''%'', x, y])"
  by (simp add: percent_encode_def)

lemma percent_decode_keep:
  assumes "\<And>a b r. cs = a # b # r \<Longrightarrow> hexval a = None \<or> hexval b = None"
  shows "percent_decode (c # cs) = c # percent_decode cs"
proof (cases cs)
  case Nil
  then show ?thesis by simp
next
  case one: (Cons a cs')
  show ?thesis
  proof (cases cs')
    case Nil
    with one show ?thesis by simp
  next
    case (Cons b r)
    with one assms have "hexval a = None \<or> hexval b = None" by simp
    then show ?thesis
      unfolding one Cons by (auto simp del: percent_decode.simps simp add: percent_decode.simps(2) [of c] split: option.splits)
  qed
qed

text \<open>A literal percent sign stays when what follows it is not two hex digits.\<close>

lemma percent_decode_literal:
  assumes "\<not> has_escape (CHR ''%'' # s)"
  shows "percent_decode (CHR ''%'' # concat (map percent_encode s))
    = CHR ''%'' # percent_decode (concat (map percent_encode s))"
proof (rule percent_decode_keep)
  fix a' b' r
  assume enc: "concat (map percent_encode s) = a' # b' # r"
  show "hexval a' = None \<or> hexval b' = None"
  proof (cases s)
    case Nil
    with enc show ?thesis by simp
  next
    case s: (Cons a s')
    from percent_encode_head [of a] show ?thesis
    proof
      assume "\<exists>x y. percent_encode a = [CHR ''%'', x, y]"
      with enc s have "a' = CHR ''%''" by auto
      then show ?thesis by (simp add: hexval_percent)
    next
      assume ea: "percent_encode a = [a]"
      with enc s have a': "a' = a" and rest: "concat (map percent_encode s') = b' # r" by auto
      show ?thesis
      proof (cases s')
        case Nil
        with rest show ?thesis by simp
      next
        case s': (Cons b s'')
        from percent_encode_head [of b] show ?thesis
        proof
          assume "\<exists>x y. percent_encode b = [CHR ''%'', x, y]"
          with rest s' have "b' = CHR ''%''" by auto
          then show ?thesis by (simp add: hexval_percent)
        next
          assume "percent_encode b = [b]"
          with rest s' have "b' = b" by auto
          with a' assms show ?thesis by (simp add: s s')
        qed
      qed
    qed
  qed
qed

lemma has_escape_tail: "\<not> has_escape (c # s) \<Longrightarrow> \<not> has_escape s"
  by (cases s rule: has_escape.cases) (auto elim: has_escape.elims)

lemma percent_decode_concat_encode':
  "\<not> has_escape s \<Longrightarrow> percent_decode (concat (map percent_encode s)) = s"
proof (induction s)
  case Nil
  show ?case by simp
next
  case (Cons c s)
  then have ih: "percent_decode (concat (map percent_encode s)) = s"
    using has_escape_tail by blast
  show ?case
  proof (cases "c = CHR ''%''")
    case True
    with Cons.prems ih percent_decode_literal [of s] show ?thesis
      by (simp add: percent_encode_percent del: percent_decode.simps)
  next
    case False
    with ih show ?thesis by (simp add: percent_decode_encode del: percent_decode.simps)
  qed
qed

lemma url_input_verify:
  assumes "\<forall>c\<in>set s. \<not> tab_or_newline c" and "s \<noteq> [] \<longrightarrow> \<not> c0_or_space (last s)"
  shows "url_input (''/verify?job_id='' @ s) = ''/verify?job_id='' @ s"
proof -
  have front: "dropWhile c0_or_space (''/verify?job_id='' @ s) = ''/verify?job_id='' @ s"
    by (simp add: c0_or_space_def)
  have rear: "dropWhile c0_or_space (rev (''/verify?job_id='' @ s)) = rev (''/verify?job_id='' @ s)"
  proof (cases "s = []")
    case True
    then show ?thesis by (simp add: c0_or_space_def)
  next
    case False
    then obtain xs x where s: "s = xs @ [x]" by (metis append_butlast_last_id)
    with assms(2) have "\<not> c0_or_space x" by simp
    then show ?thesis unfolding s by simp
  qed
  have keep: "filter (\<lambda>c. \<not> tab_or_newline c) (''/verify?job_id='' @ s) = ''/verify?job_id='' @ s"
    using assms(1) by (simp add: tab_or_newline_def filter_id_conv)
  show ?thesis unfolding url_input_def front rear rev_rev_ident keep by (rule refl)
qed

lemma url_query_verify:
  assumes "CHR ''#'' \<notin> set s"
  shows "url_query (''/verify?job_id='' @ s) = ''job_id='' @ s"
proof -
  have "takeWhile (\<lambda>c. c \<noteq> CHR ''#'') s = s" using assms by (auto simp: takeWhile_eq_all_conv)
  then show ?thesis by (simp add: url_query_def)
qed

lemma encode_job_id:
  "concat (map percent_encode (''job_id='' @ s)) = ''job_id='' @ concat (map percent_encode s)"
  by (simp add: percent_encode_def in_query_encode_set_def)

lemma handoff_exact:
  assumes "survives_query s"
  shows "useLocation_jobId (''/verify?job_id='' @ s) = Some s"
proof -
  let ?enc = "concat (map percent_encode s)"
  from assms have chars: "CHR ''&'' \<notin> set s" "CHR ''#'' \<notin> set s" "CHR ''+'' \<notin> set s"
      "\<not> has_escape s" "\<forall>c\<in>set s. \<not> tab_or_newline c"
    and tail: "s \<noteq> [] \<longrightarrow> \<not> c0_or_space (last s)"
    by (auto simp: survives_query_def)
  have search: "location_search (''/verify?job_id='' @ s) = ''?job_id='' @ ?enc"
    unfolding location_search_def url_input_verify [OF chars(5) tail]
      url_query_verify [OF chars(2)] encode_job_id
    by simp
  have amp: "CHR ''&'' \<notin> set ?enc" using chars(1) by (rule encoded_avoids) simp
  have plus: "CHR ''+'' \<notin> set ?enc" using chars(3) by (rule encoded_avoids) simp
  have split: "split_on CHR ''&'' (''job_id='' @ ?enc) = [''job_id='' @ ?enc]"
    by (rule split_on_absent) (use amp in simp)
  have noplus: "map (\<lambda>c. if c = CHR ''+'' then CHR '' '' else c) ?enc = ?enc"
    by (rule map_idI) (use plus in auto)
  have val: "form_decode ?enc = s"
    unfolding form_decode_def noplus using chars(4) by (rule percent_decode_concat_encode')
  have pair: "parse_pair (''job_id='' @ ?enc) = (''job_id'', s)"
    using val by (simp add: parse_pair_def form_decode_def)
  have params: "URLSearchParams (''?job_id='' @ ?enc) = [(''job_id'', s)]"
    using split pair by (simp add: URLSearchParams_def)
  show ?thesis unfolding useLocation_jobId_def query_get_def search params by simp
qed

text \<open>What the verify page reads for some identifiers that do not come through.\<close>

lemma handoff_examples:
  "useLocation_jobId ''/verify?job_id=id%2B1'' = Some ''id+1''"
  "useLocation_jobId ''/verify?job_id=run 7 '' = Some ''run 7''"
  "useLocation_jobId (''/verify?job_id=a'' @ [char_of (9::nat)] @ ''b'') = Some ''ab''"
  "useLocation_jobId ''/verify?job_id=x&job_id=y'' = Some ''x''"
  "useLocation_jobId ''/verify?job_id=50%'' = Some ''50%''"
  "useLocation_jobId ''/verify'' = None"
  by code_simp+

section \<open>Facts about the form handlers\<close>

lemma requests_afterFetch: "requests (afterFetch resp) = []"
  by (cases resp rule: afterFetch.cases)
     (auto simp: requests_def submissionFailed_def split: option.splits)

lemma handleSubmit_valid:
  "\<not> fails_validation fd \<Longrightarrow>
     handleSubmit resp fd = (fd, Fetch (buildRequest fd) # afterFetch resp)"
  by (auto simp: fails_validation_def handleSubmit_def)

lemma handleSubmit_invalid:
  "fails_validation fd \<Longrightarrow> handleSubmit resp fd = (fd, [Alert (first_failure fd)])"
  by (auto simp: fails_validation_def handleSubmit_def first_failure_def)

lemma requests_valid:
  "\<not> fails_validation fd \<Longrightarrow> requests (snd (handleSubmit resp fd)) = [buildRequest fd]"
  using requests_afterFetch [of resp] by (simp add: handleSubmit_valid requests_def)

section \<open>Facts about the poller\<close>

lemma run_numeral: "run (numeral k) f s = run (pred_numeral k) f (f s)"
  by (simp add: numeral_eq_Suc)

lemma run_fixed: "f s = s \<Longrightarrow> run n f s = s"
  by (induction n) simp_all

lemma run_Suc_right: "run (Suc n) f s = f (run n f s)"
  by (induction n arbitrary: s) simp_all

lemma onResponse_frame:
  "issued (onResponse r s) = issued s \<and> pending (onResponse r s) = pending s"
  by (induction r s rule: onResponse.induct) simp_all

lemma onResponse_timer_None: "timer s = None \<Longrightarrow> timer (onResponse r s) = None"
  by (induction r s rule: onResponse.induct) simp_all

lemma onResponse_result:
  "result (onResponse r s) = result s
   \<or> (\<exists>j. r = Parsed j \<and> j \<noteq> JNull \<and> member ''status'' j \<noteq> Some (JStr ''processing'')
        \<and> result (onResponse r s) = Some j)"
  by (induction r s rule: onResponse.induct) simp_all

lemma onResponse_terminal:
  "j \<noteq> JNull \<Longrightarrow> member ''status'' j \<noteq> Some (JStr ''processing'')
   \<Longrightarrow> onResponse (Parsed j) s = s\<lparr> result := Some j, timer := None \<rparr>"
  by (cases j) simp_all

lemma earliest_mem: "earliest ps = Some p \<Longrightarrow> p \<in> set ps"
  by (induction ps arbitrary: p) (auto split: option.splits if_splits)

lemma settle_frame:
  "issued (settle server k s) = issued s
   \<and> pending (settle server k s) = filter (\<lambda>p. snd p \<noteq> k) (pending s)"
  by (simp add: settle_def onResponse_frame)

lemma settle_timer_None: "timer s = None \<Longrightarrow> timer (settle server k s) = None"
  by (simp add: settle_def onResponse_timer_None)

text \<open>Once the interval is cleared, an event can only deliver an outcome still in flight.\<close>

lemma step_cleared:
  assumes "timer s = None"
  shows "timer (step af jobId server s) = None"
    and "issued (step af jobId server s) = issued s"
    and "set (pending (step af jobId server s)) \<subseteq> set (pending s)"
  using assms
  by (auto simp: step_def settle_frame settle_timer_None split: option.splits)

lemma run_cleared:
  "timer s = None \<Longrightarrow>
     timer (run n (step af jobId server) s) = None
     \<and> issued (run n (step af jobId server) s) = issued s
     \<and> set (pending (run n (step af jobId server) s)) \<subseteq> set (pending s)"
proof (induction n arbitrary: s)
  case 0
  then show ?case by simp
next
  case (Suc n)
  note c = step_cleared [OF Suc.prems, of af jobId server]
  from Suc.IH [OF c(1)] c(2) c(3) show ?case by auto
qed

lemma step_quiescent:
  "timer s = None \<Longrightarrow> pending s = [] \<Longrightarrow> step af jobId server s = s"
  by (simp add: step_def)

lemma step_cleared_result:
  assumes "timer s = None"
  shows "result (step af jobId server s) = result s
    \<or> (\<exists>p\<in>set (pending s). \<exists>j. snd (server (snd p)) = Parsed j \<and> j \<noteq> JNull
          \<and> member ''status'' j \<noteq> Some (JStr ''processing'')
          \<and> result (step af jobId server s) = Some j)"
proof (cases "earliest (pending s)")
  case None
  with assms show ?thesis by (simp add: step_def)
next
  case (Some p)
  obtain a k where p: "p = (a, k)" by (cases p)
  have mem: "(a, k) \<in> set (pending s)" using Some p earliest_mem by blast
  have st: "step af jobId server s = settle server k s"
    using assms Some p by (simp add: step_def)
  let ?s0 = "s\<lparr> pending := filter (\<lambda>p. snd p \<noteq> k) (pending s) \<rparr>"
  from onResponse_result [of "snd (server k)" ?s0]
  show ?thesis
  proof
    assume "result (onResponse (snd (server k)) ?s0) = result ?s0"
    then show ?thesis by (simp add: st settle_def)
  next
    assume "\<exists>j. snd (server k) = Parsed j \<and> j \<noteq> JNull
        \<and> member ''status'' j \<noteq> Some (JStr ''processing'')
        \<and> result (onResponse (snd (server k)) ?s0) = Some j"
    then obtain j where "snd (server k) = Parsed j" "j \<noteq> JNull"
        "member ''status'' j \<noteq> Some (JStr ''processing'')"
        "result (settle server k s) = Some j"
      by (auto simp: settle_def)
    with mem st show ?thesis by force
  qed
qed

lemma run_cleared_result:
  "timer s = None \<Longrightarrow>
     result (run n (step af jobId server) s) = result s
     \<or> (\<exists>p\<in>set (pending s). \<exists>j. snd (server (snd p)) = Parsed j \<and> j \<noteq> JNull
          \<and> member ''status'' j \<noteq> Some (JStr ''processing'')
          \<and> result (run n (step af jobId server) s) = Some j)"
proof (induction n arbitrary: s)
  case 0
  then show ?case by simp
next
  case (Suc n)
  let ?s1 = "step af jobId server s"
  note c = step_cleared [OF Suc.prems, of af jobId server]
  from Suc.IH [OF c(1)] consider
      (same) "result (run n (step af jobId server) ?s1) = result ?s1"
    | (later) p j where "p \<in> set (pending ?s1)" "snd (server (snd p)) = Parsed j" "j \<noteq> JNull"
        "member ''status'' j \<noteq> Some (JStr ''processing'')"
        "result (run n (step af jobId server) ?s1) = Some j"
    by blast
  then show ?case
  proof cases
    case same
    with step_cleared_result [OF Suc.prems, of af jobId server] show ?thesis by auto
  next
    case later
    with c(3) show ?thesis by auto
  qed
qed

text \<open>
  When every outcome takes less than one period, the request in flight (if any) is
  answered before the timer fires again.
\<close>

lemma step_prompt:
  assumes lat: "\<forall>k. fst (server k) < 3000"
    and inv: "pending s = []
      \<or> (\<exists>a k. pending s = [(a, k)] \<and> (\<forall>t. timer s = Some t \<longrightarrow> a < t))"
  shows "pending (step af jobId server s) = []
    \<or> (\<exists>a k. pending (step af jobId server s) = [(a, k)]
          \<and> (\<forall>t. timer (step af jobId server s) = Some t \<longrightarrow> a < t))"
  using inv
proof
  assume e: "pending s = []"
  show ?thesis
  proof (cases "timer s")
    case None
    with e show ?thesis by (simp add: step_def)
  next
    case (Some t)
    have "fst (server (length (issued s))) < 3000" using lat by blast
    with e Some show ?thesis by (simp add: step_def tick_def)
  qed
next
  assume "\<exists>a k. pending s = [(a, k)] \<and> (\<forall>t. timer s = Some t \<longrightarrow> a < t)"
  then obtain a k where p: "pending s = [(a, k)]" and t: "\<forall>t. timer s = Some t \<longrightarrow> a < t"
    by blast
  have "step af jobId server s = settle server k s"
    using p t by (cases "timer s") (simp_all add: step_def)
  then show ?thesis using p by (simp add: settle_frame)
qed

lemma run_prompt:
  assumes lat: "\<forall>k. fst (server k) < 3000"
  shows "pending s = [] \<or> (\<exists>a k. pending s = [(a, k)] \<and> (\<forall>t. timer s = Some t \<longrightarrow> a < t))
    \<Longrightarrow> pending (run n (step af jobId server) s) = []
      \<or> (\<exists>a k. pending (run n (step af jobId server) s) = [(a, k)]
          \<and> (\<forall>t. timer (run n (step af jobId server) s) = Some t \<longrightarrow> a < t))"
proof (induction n arbitrary: s)
  case 0
  then show ?case by simp
next
  case (Suc n)
  from Suc.IH [OF step_prompt [OF lat Suc.prems]] show ?case by simp
qed

text \<open>The three-request scenario with a prompt third answer.\<close>

lemma earliest_None_iff: "earliest ps = None \<longleftrightarrow> ps = []"
  by (cases ps) (auto split: option.splits)

lemma earliest_le: "earliest ps = Some p \<Longrightarrow> q \<in> set ps \<Longrightarrow> fst p \<le> fst q"
  by (induction ps arbitrary: p) (fastforce simp: earliest_None_iff split: option.splits if_splits)+

lemma filter_id_length:
  "distinct (map snd ps) \<Longrightarrow> (a, j) \<in> set ps
   \<Longrightarrow> Suc (length (filter (\<lambda>p. snd p \<noteq> j) ps)) = length ps"
proof (induction ps)
  case Nil
  then show ?case by simp
next
  case (Cons p ps)
  show ?case
  proof (cases "snd p = j")
    case True
    with Cons.prems have "\<forall>q\<in>set ps. snd q \<noteq> j" by (auto simp: image_iff)
    then have "filter (\<lambda>p. snd p \<noteq> j) ps = ps" by (simp add: filter_id_conv)
    with True show ?thesis by simp
  next
    case False
    with Cons show ?thesis by auto
  qed
qed

lemma settle_processing:
  "snd (server j) = Parsed (JObj [(''status'', JStr ''processing'')])
   \<Longrightarrow> settle server j s = s\<lparr> pending := filter (\<lambda>p. snd p \<noteq> j) (pending s) \<rparr>"
  by (simp add: settle_def)

lemma settle_completed:
  "snd (server j) = Parsed (JObj [(''status'', JStr ''completed''), (''score'', JNum 42)])
   \<Longrightarrow> settle server j s = s\<lparr> pending := filter (\<lambda>p. snd p \<noteq> j) (pending s),
         result := Some (JObj [(''status'', JStr ''completed''), (''score'', JNum 42)]),
         timer := None \<rparr>"
  by (simp add: settle_def)

lemma take_polls_Suc:
  "k < 3 \<Longrightarrow> take k [(3000::nat, r), (6000, r), (9000, r)] @ [(3000 * (k + 1), r)]
     = take (Suc k) [(3000, r), (6000, r), (9000, r)]"
proof -
  assume "k < 3"
  then consider "k = 0" | "k = 1" | "k = 2" by linarith
  then show ?thesis by cases (simp_all add: numeral_2_eq_2)
qed

lemma scenario_tick:
  assumes inv: "scenario_inv jobId server final s" and k: "length (issued s) < 3"
  shows "scenario_inv jobId server final (tick jobId server (3000 * (length (issued s) + 1)) s)
    \<and> events (tick jobId server (3000 * (length (issued s) + 1)) s) = Suc (events s)"
proof -
  let ?k = "length (issued s)"
  define s' where "s' = tick jobId server (3000 * (?k + 1)) s"
  let ?s' = s'
  let ?polls = "[(3000, statusRequest jobId), (6000, statusRequest jobId),
      (9000, statusRequest jobId)]"
  from inv have iss: "issued s = take ?k ?polls"
    and dist: "distinct (map snd (pending s))"
    and len: "length (pending s) \<le> ?k"
    and ids: "\<forall>p\<in>set (pending s). snd p < ?k \<and> fst p = 3000 * (snd p + 1) + fst (server (snd p))"
    and res: "result s = None"
    using k by (simp_all add: scenario_inv_def)
  have i': "issued ?s' = issued s @ [(3000 * (?k + 1), statusRequest jobId)]"
    and p': "pending ?s' = pending s @ [(3000 * (?k + 1) + fst (server ?k), ?k)]"
    and t': "timer ?s' = Some (3000 * (?k + 1) + 3000)"
    and r': "result ?s' = result s"
    by (simp_all add: tick_def s'_def)
  have l': "length (issued ?s') = Suc ?k" by (simp add: i')
  have c2: "issued ?s' = take (length (issued ?s')) ?polls"
    unfolding l' unfolding i' using take_polls_Suc [OF k, of "statusRequest jobId"] iss by simp
  have fresh: "?k \<notin> snd ` set (pending s)" using ids by auto
  have c3: "distinct (map snd (pending ?s'))" using dist fresh by (simp add: p')
  have c5: "\<forall>p\<in>set (pending ?s'). snd p < length (issued ?s')
      \<and> fst p = 3000 * (snd p + 1) + fst (server (snd p))"
    unfolding l' p' using ids by auto
  have c6: "\<not> (length (issued ?s') = 3 \<and> 2 \<notin> snd ` set (pending ?s'))"
    unfolding l' p' by auto
  have c6': "timer ?s' = Some (3000 * (length (issued ?s') + 1)) \<and> result ?s' = None"
    unfolding l' by (simp add: t' r' res)
  have ev: "events ?s' = Suc (events s)"
    using len by (simp add: events_def i' p')
  have "scenario_inv jobId server final ?s'"
    unfolding scenario_inv_def using c2 c3 c5 c6 c6' k len by (simp add: l' p')
  with ev show ?thesis unfolding s'_def by simp
qed

lemma scenario_settle:
  assumes p0: "snd (server 0) = Parsed (JObj [(''status'', JStr ''processing'')])"
    and p1: "snd (server 1) = Parsed (JObj [(''status'', JStr ''processing'')])"
    and p2: "snd (server 2) = Parsed (JObj [(''status'', JStr ''completed''), (''score'', JNum 42)])"
    and inv: "scenario_inv jobId server
        (JObj [(''status'', JStr ''completed''), (''score'', JNum 42)]) s"
    and mem: "(a, j) \<in> set (pending s)"
  shows "scenario_inv jobId server
        (JObj [(''status'', JStr ''completed''), (''score'', JNum 42)]) (settle server j s)
    \<and> events (settle server j s) = Suc (events s)"
proof -
  let ?k = "length (issued s)"
  let ?done = "JObj [(''status'', JStr ''completed''), (''score'', JNum 42)]"
  let ?s' = "settle server j s"
  let ?polls = "[(3000, statusRequest jobId), (6000, statusRequest jobId),
      (9000, statusRequest jobId)]"
  from inv have k3: "?k \<le> 3" and iss: "issued s = take ?k ?polls"
    and dist: "distinct (map snd (pending s))"
    and len: "length (pending s) \<le> ?k"
    and ids: "\<forall>p\<in>set (pending s). snd p < ?k \<and> fst p = 3000 * (snd p + 1) + fst (server (snd p))"
    and alt: "if ?k = 3 \<and> 2 \<notin> snd ` set (pending s)
         then timer s = None \<and> result s = Some ?done
         else timer s = Some (3000 * (?k + 1)) \<and> result s = None"
    by (simp_all add: scenario_inv_def)
  have jk: "j < ?k" using ids mem by force
  have i': "issued ?s' = issued s" and p': "pending ?s' = filter (\<lambda>p. snd p \<noteq> j) (pending s)"
    by (simp_all add: settle_frame)
  have c2: "issued ?s' = take (length (issued ?s')) ?polls" unfolding i' by (rule iss)
  have c3: "distinct (map snd (pending ?s'))" unfolding p' using dist by (rule distinct_map_filter)
  have flen: "Suc (length (pending ?s')) = length (pending s)"
    unfolding p' using dist mem by (rule filter_id_length)
  have c5: "\<forall>p\<in>set (pending ?s'). snd p < length (issued ?s')
      \<and> fst p = 3000 * (snd p + 1) + fst (server (snd p))"
    unfolding i' p' using ids by auto
  have idset: "snd ` set (pending ?s') = snd ` set (pending s) - {j}"
    unfolding p' by force
  have ev: "events ?s' = Suc (events s)"
    using len flen by (simp add: events_def i')
  have c6: "if length (issued ?s') = 3 \<and> 2 \<notin> snd ` set (pending ?s')
         then timer ?s' = None \<and> result ?s' = Some ?done
         else timer ?s' = Some (3000 * (length (issued ?s') + 1)) \<and> result ?s' = None"
  proof (cases "j = 2")
    case True
    then have "?k = 3" using jk k3 by simp
    moreover have "timer ?s' = None \<and> result ?s' = Some ?done"
      using True by (simp add: settle_completed [of server 2, OF p2])
    ultimately show ?thesis unfolding i' idset using True by simp
  next
    case False
    then have "j = 0 \<or> j = 1" using jk k3 by linarith
    then have "snd (server j) = Parsed (JObj [(''status'', JStr ''processing'')])"
      using p0 p1 by auto
    then have "timer ?s' = timer s \<and> result ?s' = result s"
      by (simp add: settle_processing)
    moreover have "2 \<notin> snd ` set (pending ?s') \<longleftrightarrow> 2 \<notin> snd ` set (pending s)"
      unfolding idset using False by auto
    ultimately show ?thesis unfolding i' using alt by simp
  qed
  have "scenario_inv jobId server ?done ?s'"
    unfolding scenario_inv_def using c2 c3 c5 c6 k3 len flen by (simp add: i')
  with ev show ?thesis by simp
qed

lemma scenario_step:
  assumes p0: "snd (server 0) = Parsed (JObj [(''status'', JStr ''processing'')])"
    and p1: "snd (server 1) = Parsed (JObj [(''status'', JStr ''processing'')])"
    and p2: "server 2 = (l2, Parsed (JObj [(''status'', JStr ''completed''), (''score'', JNum 42)]))"
    and l2: "l2 < 3000"
    and inv: "scenario_inv jobId server
        (JObj [(''status'', JStr ''completed''), (''score'', JNum 42)]) s"
  shows "scenario_inv jobId server
        (JObj [(''status'', JStr ''completed''), (''score'', JNum 42)]) (step af jobId server s)
    \<and> (events (step af jobId server s) = Suc (events s)
        \<or> (events s = 6 \<and> step af jobId server s = s))"
proof -
  let ?k = "length (issued s)"
  let ?done = "JObj [(''status'', JStr ''completed''), (''score'', JNum 42)]"
  let ?P = "\<lambda>s'. scenario_inv jobId server ?done s'
    \<and> (events s' = Suc (events s) \<or> (events s = 6 \<and> s' = s))"
  have p2': "snd (server 2) = Parsed ?done" using p2 by simp
  from inv have k3: "?k \<le> 3"
    and ids: "\<forall>p\<in>set (pending s). snd p < ?k \<and> fst p = 3000 * (snd p + 1) + fst (server (snd p))"
    and alt: "if ?k = 3 \<and> 2 \<notin> snd ` set (pending s)
         then timer s = None \<and> result s = Some ?done
         else timer s = Some (3000 * (?k + 1)) \<and> result s = None"
    by (simp_all add: scenario_inv_def)
  have deliver: "?P (settle server j s)" if "(a, j) \<in> set (pending s)" for a j
    using scenario_settle [OF p0 p1 p2' inv that] by simp
  have fire: "?P (tick jobId server (3000 * (?k + 1)) s)" if "?k < 3"
    using scenario_tick [OF inv that] by simp
  show ?thesis
  proof (cases "earliest (pending s)")
    case None
    then have empty: "pending s = []" by (simp add: earliest_None_iff)
    show ?thesis
    proof (cases "timer s")
      case no_timer: None
      with alt have "?k = 3" by (auto split: if_splits)
      with empty have "events s = 6" by (simp add: events_def)
      moreover have "step af jobId server s = s" using None no_timer by (simp add: step_def)
      ultimately show ?thesis using inv by simp
    next
      case (Some t)
      with alt empty have t: "t = 3000 * (?k + 1)" and "?k \<noteq> 3" by (auto split: if_splits)
      then have "?k < 3" using k3 by simp
      moreover have "step af jobId server s = tick jobId server (3000 * (?k + 1)) s"
        using None Some t by (simp add: step_def)
      ultimately show ?thesis using fire by simp
    qed
  next
    case (Some p)
    obtain a j where p: "p = (a, j)" by (cases p)
    have mem: "(a, j) \<in> set (pending s)" using Some p earliest_mem by blast
    show ?thesis
    proof (cases "timer s")
      case None
      then have "step af jobId server s = settle server j s"
        using Some p by (simp add: step_def)
      with deliver [OF mem] show ?thesis by simp
    next
      case timer: (Some t)
      with alt have t: "t = 3000 * (?k + 1)"
        and waiting: "?k = 3 \<longrightarrow> 2 \<in> snd ` set (pending s)"
        by (auto split: if_splits)
      show ?thesis
      proof (cases "a < t \<or> (a = t \<and> af)")
        case True
        then have "step af jobId server s = settle server j s"
          using Some p timer by (simp add: step_def)
        with deliver [OF mem] show ?thesis by simp
      next
        case False
        have "?k \<noteq> 3"
        proof
          assume k: "?k = 3"
          with waiting obtain q where q: "q \<in> set (pending s)" "snd q = 2" by auto
          with ids have "fst q = 3000 * 3 + fst (server 2)" by auto
          then have "fst q < 12000" using p2 l2 by simp
          moreover have "a \<le> fst q" using earliest_le [OF Some q(1)] p by simp
          ultimately have "a < t" using t k by simp
          with False show False by simp
        qed
        then have "?k < 3" using k3 by simp
        moreover have "step af jobId server s = tick jobId server (3000 * (?k + 1)) s"
          using Some p timer False t by (auto simp: step_def)
        ultimately show ?thesis using fire by simp
      qed
    qed
  qed
qed

lemma scenario_run:
  assumes p0: "snd (server 0) = Parsed (JObj [(''status'', JStr ''processing'')])"
    and p1: "snd (server 1) = Parsed (JObj [(''status'', JStr ''processing'')])"
    and p2: "server 2 = (l2, Parsed (JObj [(''status'', JStr ''completed''), (''score'', JNum 42)]))"
    and l2: "l2 < 3000"
  shows "scenario_inv jobId server
        (JObj [(''status'', JStr ''completed''), (''score'', JNum 42)])
        (run n (step af jobId server) mount)
    \<and> events (run n (step af jobId server) mount) = min n 6"
proof (induction n)
  case 0
  show ?case by (simp add: scenario_inv_def events_def mount_def)
next
  case (Suc n)
  let ?s = "run n (step af jobId server) mount"
  from Suc have inv: "scenario_inv jobId server
        (JObj [(''status'', JStr ''completed''), (''score'', JNum 42)]) ?s"
    and ev: "events ?s = min n 6" by simp_all
  have bound: "events (step af jobId server ?s) \<le> 6"
    using scenario_step [OF p0 p1 p2 l2 inv, of af]
    by (auto simp: scenario_inv_def events_def)
  from scenario_step [OF p0 p1 p2 l2 inv, of af] ev bound
  show ?case unfolding run_Suc_right by auto
qed

section \<open>The submission assembler\<close>

text \<open>
  Claim C1, amended. On submit of a valid draft, a response whose \<open>job_id\<close> is a
  non-empty string makes the form navigate to \<open>/verify?job_id=\<close> followed by that
  identifier verbatim, without encoding. The verify page reads back exactly that
  identifier, and polls for it, when the identifier contains none of \<open>&\<close>, \<open>#\<close>,
  \<open>+\<close>, no tab or line break, no percent escape, and does not end in a space or control
  character. When the transport fails, the body does not parse, or the body has no
  \<open>job_id\<close> or a falsy one (empty string, \<open>null\<close>, \<open>0\<close>, \<open>false\<close>), the form logs the
  error and shows the one message \<open>Submission failed.\<close>; it does not navigate, so the
  poller is never started, and the draft is the one it was given.
\<close>

theorem submit_response_handling:
  assumes "\<not> fails_validation fd"
  shows "(s \<noteq> [] \<and> map_of kvs ''job_id'' = Some (JStr s) \<longrightarrow>
            handleSubmit (Parsed (JObj kvs)) fd
              = (fd, [Fetch (buildRequest fd), Navigate (''/verify?job_id='' @ s)])
            \<and> (survives_query s \<longrightarrow>
                  useLocation_jobId (''/verify?job_id='' @ s) = Some s
                  \<and> url (statusRequest (useLocation_jobId (''/verify?job_id='' @ s)))
                      = ''http://localhost:8000/result/'' @ s))
    \<and> (resp = NetworkError \<or> resp = InvalidJson
          \<or> (\<exists>j. resp = Parsed j
                \<and> (j = JNull \<or> (\<forall>v. member ''job_id'' j = Some v \<longrightarrow> \<not> truthy v))) \<longrightarrow>
            (\<exists>err. handleSubmit resp fd
               = (fd, [Fetch (buildRequest fd), ConsoleError err, Alert ''Submission failed.'']))
            \<and> navigations (snd (handleSubmit resp fd)) = [])"
proof -
  have ok: "s \<noteq> [] \<and> map_of kvs ''job_id'' = Some (JStr s) \<longrightarrow>
      afterFetch (Parsed (JObj kvs)) = [Navigate (''/verify?job_id='' @ s)]"
    by simp
  have handoff: "survives_query s \<longrightarrow>
      useLocation_jobId (''/verify?job_id='' @ s) = Some s
      \<and> url (statusRequest (useLocation_jobId (''/verify?job_id='' @ s)))
          = ''http://localhost:8000/result/'' @ s"
  proof
    assume "survives_query s"
    then have h: "useLocation_jobId (''/verify?job_id='' @ s) = Some s" by (rule handoff_exact)
    show "useLocation_jobId (''/verify?job_id='' @ s) = Some s
      \<and> url (statusRequest (useLocation_jobId (''/verify?job_id='' @ s)))
          = ''http://localhost:8000/result/'' @ s"
      unfolding h by (simp add: statusRequest_def)
  qed
  have bad: "resp = NetworkError \<or> resp = InvalidJson
          \<or> (\<exists>j. resp = Parsed j
                \<and> (j = JNull \<or> (\<forall>v. member ''job_id'' j = Some v \<longrightarrow> \<not> truthy v))) \<longrightarrow>
      (\<exists>err. afterFetch resp = [ConsoleError err, Alert ''Submission failed.''])"
  proof (cases resp)
    case (Parsed j)
    then show ?thesis
      by (cases j) (auto simp: submissionFailed_def split: option.splits)
  qed (simp_all add: submissionFailed_def)
  show ?thesis
    using ok handoff bad by (auto simp: handleSubmit_valid [OF assms] navigations_def)
qed

theorem submit_response_handling_witness:
  "\<not> fails_validation repoDraft
   \<and> survives_query ''abc-123''
   \<and> snd (handleSubmit (Parsed (JObj [(''job_id'', JStr ''abc-123'')])) repoDraft)
     = [Fetch (buildRequest repoDraft), Navigate ''/verify?job_id=abc-123'']
   \<and> useLocation_jobId ''/verify?job_id=abc-123'' = Some ''abc-123''
   \<and> navigations (snd (handleSubmit (Parsed (JObj [(''job_id'', JNum 0)])) repoDraft)) = []"
proof -
  have v: "\<not> fails_validation repoDraft" by (simp add: fails_validation_def repoDraft_def)
  have q: "survives_query ''abc-123''" by code_simp
  from submit_response_handling
    [OF v, of "''abc-123''" "[(''job_id'', JStr ''abc-123'')]"
       "Parsed (JObj [(''job_id'', JNum 0)])"] v q
  show ?thesis by simp
qed

text \<open>
  The claim as stated fails for an identifier with reserved characters: the form
  navigates to the address with \<open>a+b&c=d#e\<close> spliced in as it is, and the verify page
  reads the identifier \<open>a b\<close> from it.
\<close>

theorem unencoded_job_id_counterexample:
  "snd (handleSubmit (Parsed (JObj [(''job_id'', JStr ''a+b&c=d#e'')])) repoDraft)
     = [Fetch (buildRequest repoDraft), Navigate ''/verify?job_id=a+b&c=d#e'']
   \<and> useLocation_jobId ''/verify?job_id=a+b&c=d#e'' = Some ''a b''"
proof -
  have a: "snd (handleSubmit (Parsed (JObj [(''job_id'', JStr ''a+b&c=d#e'')])) repoDraft)
     = [Fetch (buildRequest repoDraft), Navigate ''/verify?job_id=a+b&c=d#e'']"
    by (simp add: handleSubmit_def repoDraft_def)
  have b: "useLocation_jobId ''/verify?job_id=a+b&c=d#e'' = Some ''a b''"
    by code_simp
  from a b show ?thesis by (rule conjI)
qed

text \<open>
  Claim C3. A draft that breaks a validation rule (category unset, no technology,
  archive mode without a file, repository mode without an \<open>http\<close>-prefixed URL) gets
  exactly one alert and no request is sent. The alert is that of the first rule broken,
  in the order category, technologies, mode-specific field.
\<close>

theorem invalid_draft_is_not_sent:
  assumes "fails_validation fd"
  shows "handleSubmit resp fd = (fd, [Alert (first_failure fd)])
    \<and> requests (snd (handleSubmit resp fd)) = []"
  using assms by (simp add: handleSubmit_invalid requests_def)

theorem invalid_draft_is_not_sent_witness:
  "fails_validation initialFormData
   \<and> handleSubmit NetworkError initialFormData
       = (initialFormData, [Alert ''Please select a project type.''])
   \<and> requests (snd (handleSubmit NetworkError initialFormData)) = []"
  using invalid_draft_is_not_sent [of initialFormData NetworkError]
  by (simp add: fails_validation_def initialFormData_def first_failure_def requests_def)

text \<open>
  Claim C4. For a draft that passes validation, the one request sent carries
  \<open>single_zip\<close> (the chosen file) and no \<open>git_url\<close> in archive mode, and \<open>git_url\<close>
  (the URL) and no \<open>single_zip\<close> otherwise: exactly one of the two parts.
\<close>

theorem exactly_one_source_part:
  assumes "\<not> fails_validation fd"
  shows "requests (snd (handleSubmit resp fd)) = [buildRequest fd]
    \<and> (submissionType fd = ''zip'' \<longrightarrow>
          (\<exists>f. file' fd = Some f
             \<and> map_of (body (buildRequest fd)) ''single_zip'' = Some (Blob f))
          \<and> ''git_url'' \<notin> fst ` set (body (buildRequest fd)))
    \<and> (submissionType fd \<noteq> ''zip'' \<longrightarrow>
          map_of (body (buildRequest fd)) ''git_url'' = Some (Text (repoUrl fd))
          \<and> ''single_zip'' \<notin> fst ` set (body (buildRequest fd)))
    \<and> length (filter (\<lambda>kv. fst kv = ''single_zip'' \<or> fst kv = ''git_url'')
          (body (buildRequest fd))) = 1"
proof -
  have zip: "submissionType fd = ''zip'' \<Longrightarrow> \<exists>f. file' fd = Some f"
    using assms by (auto simp: fails_validation_def)
  show ?thesis
    using requests_valid [OF assms, of resp] zip by (auto simp: buildRequest_def)
qed

theorem exactly_one_source_part_witness:
  "\<not> fails_validation zipDraft
   \<and> map fst (body (buildRequest zipDraft)) = [''project_type'', ''description'', ''single_zip'']
   \<and> requests (snd (handleSubmit InvalidJson zipDraft)) = [buildRequest zipDraft]"
  using exactly_one_source_part [of zipDraft InvalidJson]
  by (simp add: fails_validation_def buildRequest_def zipDraft_def)

text \<open>
  Claim C7, amended. In repository mode a request is sent only if the URL begins with
  \<open>http\<close> (which makes it non-empty); a URL that does not begin with \<open>http\<close> gets a
  validation alert and nothing is sent; and with a category and a technology chosen, every
  URL beginning with \<open>http\<close> is sent. The separator \<open>://\<close> is not checked.
\<close>

theorem repo_url_http_prefix:
  assumes "submissionType fd \<noteq> ''zip''"
  shows "(requests (snd (handleSubmit resp fd)) \<noteq> [] \<longrightarrow> (\<exists>r. repoUrl fd = ''http'' @ r))
    \<and> ((\<nexists>r. repoUrl fd = ''http'' @ r) \<longrightarrow>
          handleSubmit resp fd = (fd, [Alert (first_failure fd)]))
    \<and> (category fd \<noteq> ''default'' \<and> techStack fd \<noteq> [] \<and> (\<exists>r. repoUrl fd = ''http'' @ r)
         \<longrightarrow> requests (snd (handleSubmit resp fd)) = [buildRequest fd])"
proof -
  have a: "(\<nexists>r. repoUrl fd = ''http'' @ r) \<Longrightarrow> fails_validation fd"
    using assms by (simp add: fails_validation_def startsWith_iff)
  have b: "category fd \<noteq> ''default'' \<Longrightarrow> techStack fd \<noteq> []
      \<Longrightarrow> \<exists>r. repoUrl fd = ''http'' @ r \<Longrightarrow> \<not> fails_validation fd"
    using assms by (simp add: fails_validation_def startsWith_iff)
  have c: "fails_validation fd \<Longrightarrow> requests (snd (handleSubmit resp fd)) = []"
    by (simp add: handleSubmit_invalid requests_def)
  show ?thesis
    using a b c requests_valid [of fd resp] handleSubmit_invalid [of fd resp] by blast
qed

theorem repo_url_http_prefix_witness:
  "submissionType (repoDraft\<lparr>repoUrl := ''ftp://host/x''\<rparr>) \<noteq> ''zip''
   \<and> (\<nexists>r. ''ftp://host/x'' = ''http'' @ r)
   \<and> handleSubmit NetworkError (repoDraft\<lparr>repoUrl := ''ftp://host/x''\<rparr>)
     = (repoDraft\<lparr>repoUrl := ''ftp://host/x''\<rparr>,
        [Alert ''Please enter a valid Git repository URL.''])"
  using repo_url_http_prefix [of "repoDraft\<lparr>repoUrl := ''ftp://host/x''\<rparr>" NetworkError]
  by (auto simp: repoDraft_def first_failure_def)

text \<open>
  The claim as stated fails: \<open>httpfoo\<close> begins with neither \<open>http://\<close> nor
  \<open>https://\<close>, yet the draft is sent with it as \<open>git_url\<close>.
\<close>

theorem repo_url_scheme_counterexample:
  "\<not> startsWith (repoUrl looseUrlDraft) ''http://''
   \<and> \<not> startsWith (repoUrl looseUrlDraft) ''https://''
   \<and> requests (snd (handleSubmit NetworkError looseUrlDraft))
     = [\<lparr> url = ''http://localhost:8000/submit'', method' = ''POST'',
          body = [(''project_type'', Text ''frontend''),
                  (''description'', Text ''demo | Tech: React''),
                  (''git_url'', Text ''httpfoo'')] \<rparr>]"
  by (simp add: handleSubmit_def buildRequest_def description_def requests_def
      submissionFailed_def looseUrlDraft_def)

text \<open>
  Claim C8, amended. A file offered at selection time is stored into the draft if and only
  if its name ends in the lower-case suffix \<open>.zip\<close> (compared exactly) or its media type
  contains \<open>zip\<close> or \<open>compressed\<close>; otherwise the draft is kept and an alert is shown.
\<close>

theorem validateFile_accepts_iff:
  "validateFile f fd =
     (if (\<exists>r. name f = r @ ''.zip'') \<or> (\<exists>l r. type f = l @ ''zip'' @ r)
         \<or> (\<exists>l r. type f = l @ ''compressed'' @ r)
      then (fd\<lparr>file' := Some f\<rparr>, [])
      else (fd, [Alert ''Please upload a .zip file'']))"
  unfolding validateFile_def endsWith_iff includes_str_iff by (rule refl)

text \<open>
  The claim as stated fails: \<open>PROJECT.ZIP\<close> ends in \<open>.zip\<close> when case is ignored, but
  with no media type it is rejected and the draft stays without a file.
\<close>

theorem upper_case_zip_counterexample:
  "endsWith (toLowerCase ''PROJECT.ZIP'') ''.zip''
   \<and> validateFile \<lparr> name = ''PROJECT.ZIP'', type = [] \<rparr> initialFormData
       = (initialFormData, [Alert ''Please upload a .zip file''])
   \<and> file' initialFormData = None"
  by code_simp

text \<open>
  Claim C9. A file rejected at selection time leaves the draft exactly as it was, through
  the file input and through the drop zone alike; the only effect is the alert.
\<close>

theorem rejected_file_keeps_draft:
  assumes "\<not> (endsWith (name f) ''.zip'' \<or> includes_str (type f) ''zip''
             \<or> includes_str (type f) ''compressed'')"
  shows "validateFile f fd = (fd, [Alert ''Please upload a .zip file''])
    \<and> onChange (f # fs) fd = (fd, [Alert ''Please upload a .zip file''])
    \<and> handleDrop (f # fs) (fd, dragging)
        = ((fd, False), [Alert ''Please upload a .zip file''])"
  using assms by (simp add: validateFile_def)

theorem rejected_file_keeps_draft_witness:
  "\<not> (endsWith ''notes.txt'' ''.zip'' \<or> includes_str ''text/plain'' ''zip''
        \<or> includes_str ''text/plain'' ''compressed'')
   \<and> validateFile \<lparr> name = ''notes.txt'', type = ''text/plain'' \<rparr> zipDraft
       = (zipDraft, [Alert ''Please upload a .zip file''])"
  using rejected_file_keeps_draft
    [of "\<lparr> name = ''notes.txt'', type = ''text/plain'' \<rparr>" zipDraft "[]" False]
  by (simp add: endsWith_def)

text \<open>
  Claim C10. For a draft that passes validation, the \<open>description\<close> part of the request
  is the project name, then \<open> | Tech: \<close>, then the first technology followed by each
  further one preceded by a comma and a space, in the order of the list; with an empty
  project name it begins with the separator. The list is in insertion order: a technology
  toggled on goes to the end.
\<close>

theorem description_wire_format:
  assumes "\<not> fails_validation fd"
  shows "requests (snd (handleSubmit resp fd)) = [buildRequest fd]
    \<and> map_of (body (buildRequest fd)) ''description''
        = Some (Text (projectName fd @ '' | Tech: ''
            @ (case techStack fd of [] \<Rightarrow> []
               | t # ts \<Rightarrow> t @ concat (map (\<lambda>u. '', '' @ u) ts))))
    \<and> (projectName fd = [] \<longrightarrow> startsWith (description fd) '' | Tech: '')
    \<and> (\<forall>t. t \<notin> set (techStack fd) \<longrightarrow> techStack (toggleTech t fd) = techStack fd @ [t])"
proof -
  have "map_of (body (buildRequest fd)) ''description''
        = Some (Text (projectName fd @ '' | Tech: ''
            @ (case techStack fd of [] \<Rightarrow> []
               | t # ts \<Rightarrow> t @ concat (map (\<lambda>u. '', '' @ u) ts))))"
    by (simp add: buildRequest_def description_def join_concat [of "techStack fd"])
  moreover have "projectName fd = [] \<longrightarrow> startsWith (description fd) '' | Tech: ''"
    by (simp add: description_def startsWith_iff)
  moreover have "\<forall>t. t \<notin> set (techStack fd) \<longrightarrow> techStack (toggleTech t fd) = techStack fd @ [t]"
    by (simp add: toggleTech_def)
  ultimately show ?thesis using requests_valid [OF assms, of resp] by blast
qed

theorem description_wire_format_witness:
  "\<not> fails_validation stackDraft
   \<and> map_of (body (buildRequest stackDraft)) ''description''
     = Some (Text '' | Tech: React, Node.js, PostgreSQL'')"
  using description_wire_format [of stackDraft NetworkError]
  by (simp add: fails_validation_def stackDraft_def)

section \<open>The result poller\<close>

text \<open>
  Claim C2, amended. When the first three status requests are answered \<open>processing\<close>,
  \<open>processing\<close> and \<open>completed\<close> with score 42, and the third answer arrives less than
  3000 ms after its request was sent, the poller never sends more than the three requests
  of 3000, 6000 and 9000 ms after the mount; it has no result and an armed timer until the
  third answer has been delivered, and is terminal with the completed body from then on;
  after six events (three firings, three deliveries) all three requests have been sent and
  answered, the completed body is displayed, and nothing changes any more. The first two
  answers may take any time.
\<close>

theorem three_polls_then_terminal:
  assumes "server 0 = (l0, Parsed (JObj [(''status'', JStr ''processing'')]))"
    and "server 1 = (l1, Parsed (JObj [(''status'', JStr ''processing'')]))"
    and "server 2 = (l2, Parsed (JObj [(''status'', JStr ''completed''), (''score'', JNum 42)]))"
    and "l2 < 3000"
  shows "(\<forall>n. \<exists>k\<le>3. issued (run n (step af jobId server) mount)
            = take k [(3000, statusRequest jobId), (6000, statusRequest jobId),
                      (9000, statusRequest jobId)])
    \<and> (\<forall>n. (result (run n (step af jobId server) mount) = None
             \<and> timer (run n (step af jobId server) mount) \<noteq> None)
          \<or> (result (run n (step af jobId server) mount)
               = Some (JObj [(''status'', JStr ''completed''), (''score'', JNum 42)])
             \<and> timer (run n (step af jobId server) mount) = None
             \<and> length (issued (run n (step af jobId server) mount)) = 3
             \<and> 2 \<notin> snd ` set (pending (run n (step af jobId server) mount))))
    \<and> (\<forall>n\<ge>6. run n (step af jobId server) mount
          = \<lparr> result = Some (JObj [(''status'', JStr ''completed''), (''score'', JNum 42)]),
              timer = None, pending = [],
              issued = [(3000, statusRequest jobId), (6000, statusRequest jobId),
                        (9000, statusRequest jobId)] \<rparr>)
    \<and> render \<lparr> result = Some (JObj [(''status'', JStr ''completed''), (''score'', JNum 42)]),
              timer = None, pending = [],
              issued = [(3000, statusRequest jobId), (6000, statusRequest jobId),
                        (9000, statusRequest jobId)] \<rparr>
        = Pre (JObj [(''status'', JStr ''completed''), (''score'', JNum 42)])"
proof -
  let ?done = "JObj [(''status'', JStr ''completed''), (''score'', JNum 42)]"
  let ?polls = "[(3000, statusRequest jobId), (6000, statusRequest jobId),
      (9000, statusRequest jobId)]"
  let ?s = "\<lambda>n. run n (step af jobId server) mount"
  have p0: "snd (server 0) = Parsed (JObj [(''status'', JStr ''processing'')])"
    and p1: "snd (server 1) = Parsed (JObj [(''status'', JStr ''processing'')])"
    using assms(1,2) by simp_all
  have inv: "scenario_inv jobId server ?done (?s n)" and ev: "events (?s n) = min n 6" for n
    using scenario_run [OF p0 p1 assms(3,4), of jobId n af] by simp_all
  have a: "\<forall>n. \<exists>k\<le>3. issued (?s n) = take k ?polls"
  proof
    fix n
    from inv [of n] have "length (issued (?s n)) \<le> 3"
      and "issued (?s n) = take (length (issued (?s n))) ?polls"
      by (simp_all add: scenario_inv_def)
    then show "\<exists>k\<le>3. issued (?s n) = take k ?polls" by blast
  qed
  have b: "\<forall>n. (result (?s n) = None \<and> timer (?s n) \<noteq> None)
          \<or> (result (?s n) = Some ?done \<and> timer (?s n) = None
             \<and> length (issued (?s n)) = 3 \<and> 2 \<notin> snd ` set (pending (?s n)))"
  proof
    fix n
    from inv [of n] show "(result (?s n) = None \<and> timer (?s n) \<noteq> None)
          \<or> (result (?s n) = Some ?done \<and> timer (?s n) = None
             \<and> length (issued (?s n)) = 3 \<and> 2 \<notin> snd ` set (pending (?s n)))"
      unfolding scenario_inv_def by (auto split: if_splits)
  qed
  have c: "\<forall>n\<ge>6. ?s n = \<lparr> result = Some ?done, timer = None, pending = [], issued = ?polls \<rparr>"
  proof (intro allI impI)
    fix n :: nat
    assume "6 \<le> n"
    with ev [of n] have e: "events (?s n) = 6" by simp
    from inv [of n] have k: "length (issued (?s n)) \<le> 3"
      and iss: "issued (?s n) = take (length (issued (?s n))) ?polls"
      and alt: "if length (issued (?s n)) = 3 \<and> 2 \<notin> snd ` set (pending (?s n))
         then timer (?s n) = None \<and> result (?s n) = Some ?done
         else timer (?s n) = Some (3000 * (length (issued (?s n)) + 1)) \<and> result (?s n) = None"
      by (simp_all add: scenario_inv_def)
    from e k have "length (issued (?s n)) = 3 \<and> length (pending (?s n)) = 0"
      unfolding events_def by arith
    then have k3: "length (issued (?s n)) = 3" and pe: "pending (?s n) = []" by simp_all
    from iss k3 have "issued (?s n) = ?polls" by simp
    moreover from alt k3 pe have "timer (?s n) = None" "result (?s n) = Some ?done" by simp_all
    ultimately show "?s n = \<lparr> result = Some ?done, timer = None, pending = [], issued = ?polls \<rparr>"
      using pe by (cases "?s n") simp
  qed
  have d: "render \<lparr> result = Some ?done, timer = None, pending = [], issued = ?polls \<rparr>
      = Pre ?done"
    by (simp add: render_def)
  from a b c d show ?thesis by blast
qed

theorem three_polls_then_terminal_witness:
  "(2999::nat) < 3000
   \<and> run 6 (step False (Some ''abc-123'') lateFirstServer) mount
     = \<lparr> result = Some (JObj [(''status'', JStr ''completed''), (''score'', JNum 42)]),
         timer = None, pending = [],
         issued = [(3000, statusRequest (Some ''abc-123'')),
                   (6000, statusRequest (Some ''abc-123'')),
                   (9000, statusRequest (Some ''abc-123''))] \<rparr>"
proof -
  have a: "lateFirstServer 0 = (4000, Parsed (JObj [(''status'', JStr ''processing'')]))"
    by (simp add: lateFirstServer_def)
  have b: "lateFirstServer 1 = (100, Parsed (JObj [(''status'', JStr ''processing'')]))"
    by (simp add: lateFirstServer_def)
  have c: "lateFirstServer 2
      = (2999, Parsed (JObj [(''status'', JStr ''completed''), (''score'', JNum 42)]))"
    by (simp add: lateFirstServer_def)
  have d: "(2999::nat) < 3000" by simp
  note t = three_polls_then_terminal [OF a b c d, of False "Some ''abc-123''"]
  from t [THEN conjunct2, THEN conjunct2, THEN conjunct1, rule_format, of 6]
  show ?thesis by simp
qed

text \<open>
  The claim as stated fails when the third answer is slow: it takes 4000 ms, the timer
  fires again at 12000 ms, and a fourth request is sent although the only answers ever
  received are the three of the claim (the fourth request fails in transport).
\<close>

theorem slow_third_response_counterexample:
  "map fst (issued (run 8 (step True (Some ''abc-123'') slowThirdServer) mount))
     = [3000, 6000, 9000, 12000]
   \<and> result (run 8 (step True (Some ''abc-123'') slowThirdServer) mount)
     = Some (JObj [(''status'', JStr ''completed''), (''score'', JNum 42)])"
  by (simp add: run_numeral step_def tick_def settle_def mount_def slowThirdServer_def)

text \<open>
  Claim C5, amended. When the callback of request \<open>k\<close> receives a body whose status is
  not \<open>processing\<close> (whatever else it is), the body is stored in full and the timer is
  cleared; from then on the timer stays cleared and no request is ever added, however many
  events follow. The stored body stays for good when no other request is in flight;
  otherwise what is displayed later is this body or the non-processing body of a request
  that was still in flight.
\<close>

theorem terminal_response_stops_polling:
  assumes "snd (server k) = Parsed j" and "j \<noteq> JNull"
    and "member ''status'' j \<noteq> Some (JStr ''processing'')"
  shows "result (settle server k s) = Some j
    \<and> timer (settle server k s) = None
    \<and> (\<forall>n. timer (run n (step af jobId server) (settle server k s)) = None
          \<and> issued (run n (step af jobId server) (settle server k s)) = issued s)
    \<and> (pending (settle server k s) = [] \<longrightarrow>
          (\<forall>n. run n (step af jobId server) (settle server k s) = settle server k s))
    \<and> (\<forall>n. result (run n (step af jobId server) (settle server k s)) = Some j
          \<or> (\<exists>p\<in>set (pending (settle server k s)). \<exists>j'. snd (server (snd p)) = Parsed j'
               \<and> member ''status'' j' \<noteq> Some (JStr ''processing'')
               \<and> result (run n (step af jobId server) (settle server k s)) = Some j'))"
proof -
  let ?s' = "settle server k s"
  have r: "result ?s' = Some j" and t: "timer ?s' = None"
    using assms by (simp_all add: settle_def onResponse_terminal)
  have a: "\<forall>n. timer (run n (step af jobId server) ?s') = None
      \<and> issued (run n (step af jobId server) ?s') = issued s"
    using run_cleared [OF t, of _ af jobId server] by (simp add: settle_frame)
  have b: "pending ?s' = [] \<longrightarrow> (\<forall>n. run n (step af jobId server) ?s' = ?s')"
    using t by (simp add: run_fixed step_quiescent)
  have c: "\<forall>n. result (run n (step af jobId server) ?s') = Some j
          \<or> (\<exists>p\<in>set (pending ?s'). \<exists>j'. snd (server (snd p)) = Parsed j'
               \<and> member ''status'' j' \<noteq> Some (JStr ''processing'')
               \<and> result (run n (step af jobId server) ?s') = Some j')"
  proof
    fix n
    from run_cleared_result [OF t, of n af jobId server] r
    show "result (run n (step af jobId server) ?s') = Some j
          \<or> (\<exists>p\<in>set (pending ?s'). \<exists>j'. snd (server (snd p)) = Parsed j'
               \<and> member ''status'' j' \<noteq> Some (JStr ''processing'')
               \<and> result (run n (step af jobId server) ?s') = Some j')"
      by auto
  qed
  from r t a b c show ?thesis by blast
qed

theorem terminal_response_stops_polling_witness:
  "snd (cancellingServer 0) = Parsed (JObj [(''status'', JStr ''cancelled'')])
   \<and> JObj [(''status'', JStr ''cancelled'')] \<noteq> JNull
   \<and> member ''status'' (JObj [(''status'', JStr ''cancelled'')]) \<noteq> Some (JStr ''processing'')
   \<and> result (settle cancellingServer 0 (tick None cancellingServer 3000 mount))
     = Some (JObj [(''status'', JStr ''cancelled'')])
   \<and> timer (settle cancellingServer 0 (tick None cancellingServer 3000 mount)) = None"
  using terminal_response_stops_polling
    [of cancellingServer 0 "JObj [(''status'', JStr ''cancelled'')]"
        "tick None cancellingServer 3000 mount"]
  by (simp add: cancellingServer_def)

text \<open>
  The claim as stated fails on the retained result: the first request is answered after
  5000 ms, the second after 1000 ms. The second answer (\<open>failed\<close>) arrives first, makes
  the poller terminal and is displayed; one event later the first answer arrives and
  replaces it.
\<close>

theorem displayed_result_replaced_counterexample:
  "timer (run 3 (step True (Some ''abc-123'') overtakingServer) mount) = None
   \<and> render (run 3 (step True (Some ''abc-123'') overtakingServer) mount)
     = Pre (JObj [(''status'', JStr ''failed'')])
   \<and> render (run 4 (step True (Some ''abc-123'') overtakingServer) mount)
     = Pre (JObj [(''status'', JStr ''completed''), (''score'', JNum 42)])"
  by (simp add: run_numeral step_def tick_def settle_def mount_def render_def
      overtakingServer_def)

text \<open>
  Claim C6, amended. When every outcome (answer or failure) arrives less than 3000 ms
  after its request was sent, at most one status request is in flight at any time.
\<close>

theorem one_in_flight_when_prompt:
  assumes "\<forall>k. fst (server k) < 3000"
  shows "length (pending (run n (step af jobId server) mount)) \<le> 1"
proof -
  have "pending mount = []" by (simp add: mount_def)
  then have "pending (run n (step af jobId server) mount) = []
      \<or> (\<exists>a k. pending (run n (step af jobId server) mount) = [(a, k)]
          \<and> (\<forall>t. timer (run n (step af jobId server) mount) = Some t \<longrightarrow> a < t))"
    using run_prompt [OF assms] by blast
  then show ?thesis by auto
qed

theorem one_in_flight_when_prompt_witness:
  "(\<forall>k. fst (quickServer k) < 3000)
   \<and> length (pending (run 5 (step True (Some ''abc-123'') quickServer) mount)) \<le> 1"
  using one_in_flight_when_prompt [of quickServer 5 True "Some ''abc-123''"]
  by (simp add: quickServer_def)

text \<open>
  The claim as stated fails when answers are slow: with answers taking 4000 ms, the
  timer sends the second request at 6000 ms while the first, due at 7000 ms, is still in
  flight.
\<close>

theorem overlapping_requests_counterexample:
  "pending (run 2 (step True (Some ''abc-123'') busyServer) mount) = [(7000, 0), (10000, 1)]"
  by (simp add: run_numeral step_def tick_def mount_def busyServer_def)

end
